theory Spec2Isabelle
  imports Main
begin

section \<open>Strings of UTF-16 code units\<close>

text \<open>
  A JavaScript string is a sequence of 16-bit code units. A code unit is modelled as a
  natural number and a string as a list of them; no operation of the renderer does
  arithmetic on a code unit, so the bound 65536 plays no role. \<open>js\<close> turns a literal
  of ASCII characters into its code units.
\<close>

type_synonym cu = nat
type_synonym jsstring = "nat list"

abbreviation js :: "string \<Rightarrow> jsstring" where
  "js \<equiv> map of_char"

text \<open>ECMAScript LineTerminator: LF, CR, LS (U+2028), PS (U+2029).\<close>

definition is_line_terminator :: "cu \<Rightarrow> bool" where
  "is_line_terminator c \<longleftrightarrow> c = 10 \<or> c = 13 \<or> c = 8232 \<or> c = 8233"

text \<open>ECMAScript WhiteSpace: TAB, VT, FF, ZWNBSP and the code points of category Zs.\<close>

definition is_white_space :: "cu \<Rightarrow> bool" where
  "is_white_space c \<longleftrightarrow>
     c = 9 \<or> c = 11 \<or> c = 12 \<or> c = 32 \<or> c = 160 \<or> c = 5760 \<or> (8192 \<le> c \<and> c \<le> 8202) \<or>
     c = 8239 \<or> c = 8287 \<or> c = 12288 \<or> c = 65279"

text \<open>The class \<open>\s\<close>, which is also what \<open>String.prototype.trim\<close> strips.\<close>

definition is_space :: "cu \<Rightarrow> bool" where
  "is_space c \<longleftrightarrow> is_white_space c \<or> is_line_terminator c"

definition is_digit :: "cu \<Rightarrow> bool" where
  "is_digit c \<longleftrightarrow> 48 \<le> c \<and> c \<le> 57"

definition trim :: "jsstring \<Rightarrow> jsstring" where
  "trim s = rev (dropWhile is_space (rev (dropWhile is_space s)))"

text \<open>\<open>s.split(c)\<close> for a separator \<open>c\<close> of one code unit; \<open>"".split(c)\<close> is \<open>[""]\<close>.\<close>

fun split_acc :: "cu \<Rightarrow> jsstring \<Rightarrow> jsstring \<Rightarrow> jsstring list" where
  "split_acc c acc [] = [rev acc]"
| "split_acc c acc (x # xs) =
     (if x = c then rev acc # split_acc c [] xs else split_acc c (x # acc) xs)"

definition split_chr :: "cu \<Rightarrow> jsstring \<Rightarrow> jsstring list" where
  "split_chr c s = split_acc c [] s"

text \<open>\<open>Array.prototype.slice(start, end)\<close> with its relative (negative) indices.\<close>

definition slice :: "int \<Rightarrow> int \<Rightarrow> 'a list \<Rightarrow> 'a list" where
  "slice start end xs =
     (let len = int (length xs);
          k = (if start < 0 then max (len + start) 0 else min start len);
          final = (if end < 0 then max (len + end) 0 else min end len)
      in take (nat (final - k)) (drop (nat k) xs))"

text \<open>\<open>Number.prototype.toString\<close> on an array index: its decimal digits.\<close>

fun digits_of :: "nat \<Rightarrow> jsstring" where
  "digits_of n = (if n < 10 then [48 + n] else digits_of (n div 10) @ [48 + n mod 10])"

declare digits_of.simps [simp del]

section \<open>Regular expressions: the backtracking matcher of ECMAScript\<close>

text \<open>
  The character classes and the syntax of the patterns that the renderer uses. No pattern
  of the source has the flags \<open>s\<close>, \<open>u\<close> or \<open>y\<close>. The flag \<open>i\<close> is on the heading
  and blockquote patterns only, whose literal characters are \<open>#\<close>, \<open>>\<close> and the space:
  they have no case variants, so the flag changes nothing and is not modelled.
\<close>

datatype cls =
    Lit cu                \<comment> \<open>a literal character\<close>
  | Dot                   \<comment> \<open>\<open>.\<close>: anything but a line terminator\<close>
  | AnyCU                 \<comment> \<open>\<open>[\s\S]\<close>\<close>
  | Space                 \<comment> \<open>\<open>\s\<close>\<close>
  | Digit                 \<comment> \<open>\<open>\d\<close>\<close>
  | OneOf "cu list"       \<comment> \<open>\<open>[abc]\<close>\<close>
  | NoneOf "cu list"      \<comment> \<open>\<open>[^abc]\<close>\<close>
  | CRange cu cu           \<comment> \<open>\<open>[a-b]\<close>\<close>

fun cls_mem :: "cls \<Rightarrow> cu \<Rightarrow> bool" where
  "cls_mem (Lit a) c \<longleftrightarrow> c = a"
| "cls_mem Dot c \<longleftrightarrow> \<not> is_line_terminator c"
| "cls_mem AnyCU c \<longleftrightarrow> True"
| "cls_mem Space c \<longleftrightarrow> is_space c"
| "cls_mem Digit c \<longleftrightarrow> is_digit c"
| "cls_mem (OneOf as) c \<longleftrightarrow> c \<in> set as"
| "cls_mem (NoneOf as) c \<longleftrightarrow> c \<notin> set as"
| "cls_mem (CRange a b) c \<longleftrightarrow> a \<le> c \<and> c \<le> b"

datatype regex =
    Empty
  | Sym cls
  | BolM                  \<comment> \<open>\<open>^\<close> under the flag \<open>m\<close>\<close>
  | EolM                  \<comment> \<open>\<open>$\<close> under the flag \<open>m\<close>\<close>
  | Bos                   \<comment> \<open>\<open>^\<close> without the flag \<open>m\<close>\<close>
  | Seq regex regex
  | Alt regex regex
  | Star regex            \<comment> \<open>\<open>r*\<close>\<close>
  | StarLazy regex        \<comment> \<open>\<open>r*?\<close>\<close>
  | Opt regex             \<comment> \<open>\<open>r?\<close>\<close>
  | Group nat regex       \<comment> \<open>the capturing group of that number\<close>

text \<open>\<open>r+\<close>, a sequence of patterns, and a literal string.\<close>

definition Plus1 :: "regex \<Rightarrow> regex" where
  "Plus1 r = Seq r (Star r)"

fun seqs :: "regex list \<Rightarrow> regex" where
  "seqs [] = Empty"
| "seqs [r] = r"
| "seqs (r # rs) = Seq r (seqs rs)"

definition str :: "jsstring \<Rightarrow> regex" where
  "str s = seqs (map (\<lambda>c. Sym (Lit c)) s)"

fun alts :: "regex list \<Rightarrow> regex" where
  "alts [] = Empty"
| "alts [r] = r"
| "alts (r # rs) = Alt r (alts rs)"

text \<open>
  The state of a match: the input already consumed, last character first (\<open>^\<close> looks at
  its head), the input still ahead, and the captures so far. The end index of the
  specification's match state is \<open>length (pre x)\<close>.
\<close>

record mstate =
  pre :: jsstring
  rest :: jsstring
  caps :: "nat \<Rightarrow> jsstring option"

type_synonym cont = "mstate \<Rightarrow> mstate option"
type_synonym matcher = "cont \<Rightarrow> mstate \<Rightarrow> mstate option"

text \<open>
  RepeatMatcher with minimum 0 and no maximum: greedy tries one more iteration before
  the continuation, lazy the continuation first. An iteration that consumes nothing is
  rejected. No pattern of the source has a capturing group under a quantifier, so the
  reset of the captures of the repeated atom is not needed.
\<close>

function star_greedy :: "matcher \<Rightarrow> cont \<Rightarrow> mstate \<Rightarrow> mstate option" where
  "star_greedy ma k x =
     (case ma (\<lambda>y. if length (rest y) < length (rest x) then star_greedy ma k y else None) x of
        Some r \<Rightarrow> Some r
      | None \<Rightarrow> k x)"
  by pat_completeness auto
termination
  by (relation "measure (\<lambda>(ma, k, x). length (rest x))") auto

function star_lazy :: "matcher \<Rightarrow> cont \<Rightarrow> mstate \<Rightarrow> mstate option" where
  "star_lazy ma k x =
     (case k x of
        Some r \<Rightarrow> Some r
      | None \<Rightarrow> ma (\<lambda>y. if length (rest y) < length (rest x) then star_lazy ma k y else None) x)"
  by pat_completeness auto
termination
  by (relation "measure (\<lambda>(ma, k, x). length (rest x))") auto

declare star_greedy.simps [simp del] star_lazy.simps [simp del]

definition at_line_start :: "jsstring \<Rightarrow> bool" where
  "at_line_start p = (case p of [] \<Rightarrow> True | a # _ \<Rightarrow> is_line_terminator a)"

definition at_line_end :: "jsstring \<Rightarrow> bool" where
  "at_line_end s = (case s of [] \<Rightarrow> True | a # _ \<Rightarrow> is_line_terminator a)"

primrec matcher :: "regex \<Rightarrow> cont \<Rightarrow> mstate \<Rightarrow> mstate option" where
  "matcher Empty k x = k x"
| "matcher (Sym c) k x =
     (case rest x of
        [] \<Rightarrow> None
      | a # as \<Rightarrow> if cls_mem c a then k (x\<lparr>pre := a # pre x, rest := as\<rparr>) else None)"
| "matcher BolM k x = (if at_line_start (pre x) then k x else None)"
| "matcher EolM k x = (if at_line_end (rest x) then k x else None)"
| "matcher Bos k x = (if pre x = [] then k x else None)"
| "matcher (Seq a b) k x = matcher a (matcher b k) x"
| "matcher (Alt a b) k x =
     (case matcher a k x of Some r \<Rightarrow> Some r | None \<Rightarrow> matcher b k x)"
| "matcher (Star a) k x = star_greedy (matcher a) k x"
| "matcher (StarLazy a) k x = star_lazy (matcher a) k x"
| "matcher (Opt a) k x =
     (case matcher a (\<lambda>y. if length (rest y) < length (rest x) then k y else None) x of
        Some r \<Rightarrow> Some r
      | None \<Rightarrow> k x)"
| "matcher (Group n a) k x =
     matcher a
       (\<lambda>y. k (y\<lparr>caps := (caps y)(n \<mapsto> rev (take (length (pre y) - length (pre x)) (pre y)))\<rparr>)) x"

text \<open>The number of capturing groups of a pattern.\<close>

primrec ngroups :: "regex \<Rightarrow> nat" where
  "ngroups Empty = 0"
| "ngroups (Sym c) = 0"
| "ngroups BolM = 0"
| "ngroups EolM = 0"
| "ngroups Bos = 0"
| "ngroups (Seq a b) = ngroups a + ngroups b"
| "ngroups (Alt a b) = ngroups a + ngroups b"
| "ngroups (Star a) = ngroups a"
| "ngroups (StarLazy a) = ngroups a"
| "ngroups (Opt a) = ngroups a"
| "ngroups (Group n a) = Suc (ngroups a)"

text \<open>One attempt at the current position, with no capture set.\<close>

definition match_here :: "regex \<Rightarrow> jsstring \<Rightarrow> jsstring \<Rightarrow> mstate option" where
  "match_here r p s = matcher r Some \<lparr>pre = p, rest = s, caps = Map.empty\<rparr>"

section \<open>Replacement\<close>

text \<open>
  What a replacement sees of a match: the matched text, the captures, the input before
  the match and the input after it.
\<close>

record minfo =
  matched :: jsstring
  groups :: "nat \<Rightarrow> jsstring option"
  before :: jsstring
  after :: jsstring

definition mk_info :: "jsstring \<Rightarrow> jsstring \<Rightarrow> mstate \<Rightarrow> minfo" where
  "mk_info p s y =
     \<lparr>matched = take (length s - length (rest y)) s, groups = caps y,
      before = rev p, after = rest y\<rparr>"

text \<open>
  GetSubstitution: the expansion of a replacement string. \<open>$$\<close> is a dollar sign,
  \<open>$&\<close> the match, \<open>$`\<close> and \<open>$'\<close> the input before and after it, \<open>$n\<close> and
  \<open>$nn\<close> a capture when the pattern has that many groups (\<open>ng\<close> of them); named
  captures do not occur, so \<open>$<\<close> is literal. Any other dollar sign is literal.
\<close>

definition capture_ref :: "nat \<Rightarrow> minfo \<Rightarrow> nat \<Rightarrow> jsstring \<Rightarrow> jsstring" where
  "capture_ref ng mi index ref =
     (if 1 \<le> index \<and> index \<le> ng
      then (case groups mi index of None \<Rightarrow> [] | Some c \<Rightarrow> c)
      else ref)"

fun get_substitution :: "nat \<Rightarrow> minfo \<Rightarrow> jsstring \<Rightarrow> jsstring" where
  "get_substitution ng mi [] = []"
| "get_substitution ng mi [c] = [c]"
| "get_substitution ng mi (c # d # t) =
     (if c \<noteq> 36 then c # get_substitution ng mi (d # t)
      else if d = 36 then 36 # get_substitution ng mi t
      else if d = 38 then matched mi @ get_substitution ng mi t
      else if d = 96 then before mi @ get_substitution ng mi t
      else if d = 39 then after mi @ get_substitution ng mi t
      else if is_digit d then
        (case t of
           e # t' \<Rightarrow>
             if is_digit e \<and> (d - 48) * 10 + (e - 48) \<le> ng
             then capture_ref ng mi ((d - 48) * 10 + (e - 48)) [c, d, e] @ get_substitution ng mi t'
             else capture_ref ng mi (d - 48) [c, d] @ get_substitution ng mi t
         | [] \<Rightarrow> capture_ref ng mi (d - 48) [c, d] @ get_substitution ng mi t)
      else c # get_substitution ng mi (d # t))"

text \<open>A replacement is a replacement string or a function of the match.\<close>

datatype replacement = Template jsstring | Callback "minfo \<Rightarrow> jsstring"

fun apply_replacement :: "nat \<Rightarrow> replacement \<Rightarrow> minfo \<Rightarrow> jsstring" where
  "apply_replacement ng (Template t) mi = get_substitution ng mi t"
| "apply_replacement ng (Callback f) mi = f mi"

text \<open>
  \<open>String.prototype.replace\<close> with a pattern that has the flag \<open>g\<close>: the matches
  are looked for from left to right, each search starting where the last match ended,
  one position further after an empty match.
\<close>

function replace_loop :: "regex \<Rightarrow> (minfo \<Rightarrow> jsstring) \<Rightarrow> jsstring \<Rightarrow> jsstring \<Rightarrow> jsstring" where
  "replace_loop r f p s =
     (case match_here r p s of
        None \<Rightarrow> (case s of [] \<Rightarrow> [] | a # as \<Rightarrow> a # replace_loop r f (a # p) as)
      | Some y \<Rightarrow>
          f (mk_info p s y) @
          (if length (rest y) < length s then replace_loop r f (pre y) (rest y)
           else (case s of [] \<Rightarrow> [] | a # as \<Rightarrow> a # replace_loop r f (a # p) as)))"
  by pat_completeness auto
termination
  by (relation "measure (\<lambda>(r, f, p, s). length s)") auto

declare replace_loop.simps [simp del]

definition replace_all :: "regex \<Rightarrow> replacement \<Rightarrow> jsstring \<Rightarrow> jsstring" where
  "replace_all r rep s = replace_loop r (apply_replacement (ngroups r) rep) [] s"

text \<open>
  The same loop for a callback with a side effect: the callback reads and updates a state
  \<open>st\<close>, which is handed from each match to the next in the order of the matches.
\<close>

function replace_loop_st ::
  "regex \<Rightarrow> ('a \<Rightarrow> minfo \<Rightarrow> jsstring \<times> 'a) \<Rightarrow> 'a \<Rightarrow> jsstring \<Rightarrow> jsstring \<Rightarrow> jsstring \<times> 'a" where
  "replace_loop_st r f st p s =
     (case match_here r p s of
        None \<Rightarrow>
          (case s of
             [] \<Rightarrow> ([], st)
           | a # as \<Rightarrow> (case replace_loop_st r f st (a # p) as of (out, st') \<Rightarrow> (a # out, st')))
      | Some y \<Rightarrow>
          (case f st (mk_info p s y) of
             (out1, st1) \<Rightarrow>
               if length (rest y) < length s
               then (case replace_loop_st r f st1 (pre y) (rest y) of
                       (out2, st2) \<Rightarrow> (out1 @ out2, st2))
               else (case s of
                       [] \<Rightarrow> (out1, st1)
                     | a # as \<Rightarrow>
                         (case replace_loop_st r f st1 (a # p) as of
                            (out2, st2) \<Rightarrow> (out1 @ a # out2, st2)))))"
  by pat_completeness auto
termination
  by (relation "measure (\<lambda>(r, f, st, p, s). length s)") auto

declare replace_loop_st.simps [simp del]

text \<open>
  \<open>String.prototype.replace\<close> with a string to look for and a replacement string: the
  first occurrence is replaced by the expansion of the replacement string, in which the
  dollar patterns are interpreted with no capture; without an occurrence the string comes
  back as it is.
\<close>

fun find_sub :: "jsstring \<Rightarrow> jsstring \<Rightarrow> jsstring \<Rightarrow> (jsstring \<times> jsstring) option" where
  "find_sub pat p [] = (if pat = [] then Some (rev p, []) else None)"
| "find_sub pat p (a # as) =
     (if take (length pat) (a # as) = pat then Some (rev p, drop (length pat) (a # as))
      else find_sub pat (a # p) as)"

definition replace_first :: "jsstring \<Rightarrow> jsstring \<Rightarrow> jsstring \<Rightarrow> jsstring" where
  "replace_first pat rep s =
     (case find_sub pat [] s of
        None \<Rightarrow> s
      | Some (b, a) \<Rightarrow>
          b @ get_substitution 0 \<lparr>matched = pat, groups = Map.empty, before = b, after = a\<rparr> rep @ a)"

text \<open>\<open>RegExp.prototype.exec\<close> from index 0 without the flag \<open>g\<close>, as \<open>match\<close> uses it.\<close>

fun search :: "regex \<Rightarrow> jsstring \<Rightarrow> jsstring \<Rightarrow> mstate option" where
  "search r p [] = match_here r p []"
| "search r p (a # as) =
     (case match_here r p (a # as) of Some y \<Rightarrow> Some y | None \<Rightarrow> search r (a # p) as)"

definition re_test :: "regex \<Rightarrow> jsstring \<Rightarrow> bool" where
  "re_test r s \<longleftrightarrow> search r [] s \<noteq> None"

text \<open>
  \<open>String.prototype.split\<close> with a pattern. \<open>acc\<close> is the piece being read, last
  character first. A match that ends where the piece began is skipped; the empty string
  splits into no piece when the pattern matches it and into itself otherwise. The pattern
  of the source has no capturing group, so nothing else enters the result.
\<close>

function split_loop :: "regex \<Rightarrow> jsstring \<Rightarrow> jsstring \<Rightarrow> jsstring \<Rightarrow> jsstring list" where
  "split_loop r acc p [] = [rev acc]"
| "split_loop r acc p (a # as) =
     (case match_here r p (a # as) of
        None \<Rightarrow> split_loop r (a # acc) (a # p) as
      | Some y \<Rightarrow>
          if length (rest y) < length (a # as) then rev acc # split_loop r [] (pre y) (rest y)
          else if acc = [] then split_loop r [a] (a # p) as
          else rev acc # split_loop r [] p (a # as))"
  by pat_completeness auto
termination
  by (relation "measures [\<lambda>(r, acc, p, s). length s, \<lambda>(r, acc, p, s). length acc]") auto

declare split_loop.simps [simp del]

definition split_re :: "regex \<Rightarrow> jsstring \<Rightarrow> jsstring list" where
  "split_re r s =
     (if s = [] then (if match_here r [] [] = None then [[]] else [])
      else split_loop r [] [] s)"

section \<open>The markdown converter\<close>

text \<open>
  The text of a capture in a callback. Every group that the two callbacks read is set in
  every match of its pattern (\<open>callback_groups_set\<close> below), so the value given here
  for an unset capture is never used.
\<close>

definition group_text :: "minfo \<Rightarrow> nat \<Rightarrow> jsstring" where
  "group_text mi n = (case groups mi n of Some c \<Rightarrow> c | None \<Rightarrow> [])"

text \<open>\<open>/^#... (.*$)/gim\<close> for a given run of \<open>#\<close> and the space after it.\<close>

definition heading_re :: "jsstring \<Rightarrow> regex" where
  "heading_re marks = seqs [BolM, str marks, Group 1 (Seq (Star (Sym Dot)) EolM)]"

text \<open>\<open>/```(.*?)\n([\s\S]*?)```/g\<close>\<close>

definition fence_re :: regex where
  "fence_re =
     seqs [str (js ''```''), Group 1 (StarLazy (Sym Dot)), Sym (Lit 10),
           Group 2 (StarLazy (Sym AnyCU)), str (js ''```'')]"

definition escape_code :: "jsstring \<Rightarrow> jsstring" where
  "escape_code code =
     replace_all (Sym (Lit 62)) (Template (js ''&gt;''))
       (replace_all (Sym (Lit 60)) (Template (js ''&lt;'')) code)"

definition fence_cb :: "minfo \<Rightarrow> jsstring" where
  \<open>fence_cb mi =
     js ''<pre><code class="language-'' @ group_text mi 1 @ js ''">'' @
     trim (escape_code (group_text mi 2)) @ js ''</code></pre>''\<close>

text \<open>\<open>/^\|(.+)\|\r?\n\|( *[-:]+[-| :]*)\|\r?\n((?:\|.*\|\r?\n?)*)/gm\<close>\<close>

definition table_re :: regex where
  "table_re =
     seqs [BolM, Sym (Lit 124), Group 1 (Plus1 (Sym Dot)), Sym (Lit 124),
           Opt (Sym (Lit 13)), Sym (Lit 10),
           Sym (Lit 124),
           Group 2 (seqs [Star (Sym (Lit 32)), Plus1 (Sym (OneOf (js ''-:''))),
                          Star (Sym (OneOf (js ''-| :'')))]),
           Sym (Lit 124), Opt (Sym (Lit 13)), Sym (Lit 10),
           Group 3 (Star (seqs [Sym (Lit 124), Star (Sym Dot), Sym (Lit 124),
                                Opt (Sym (Lit 13)), Opt (Sym (Lit 10))]))]"

definition table_cb :: "minfo \<Rightarrow> jsstring" where
  "table_cb mi =
     (let headers =
            concat (map (\<lambda>h. js ''<th>'' @ trim h @ js ''</th>'')
                      (slice 1 (- 1) (split_chr 124 (group_text mi 1))));
          rows =
            concat (map (\<lambda>rowStr.
                           js ''<tr>'' @
                           concat (map (\<lambda>c. js ''<td>'' @ trim c @ js ''</td>'')
                                     (slice 1 (- 1) (split_chr 124 rowStr))) @
                           js ''</tr>'')
                      (split_chr 10 (trim (group_text mi 3))))
      in js ''<table><thead><tr>'' @ headers @ js ''</tr></thead><tbody>'' @ rows @
         js ''</tbody></table>'')"

text \<open>\<open>/^\> (.*$)/gim\<close>\<close>

definition quote_re :: regex where
  "quote_re = seqs [BolM, str (js ''> ''), Group 1 (Seq (Star (Sym Dot)) EolM)]"

text \<open>\<open>/^\s*([*-]) (.*)/gm\<close> and \<open>/^\s*(\d+)\. (.*)/gm\<close>\<close>

definition ul_re :: regex where
  "ul_re =
     seqs [BolM, Star (Sym Space), Group 1 (Sym (OneOf (js ''*-''))), Sym (Lit 32),
           Group 2 (Star (Sym Dot))]"

definition ol_re :: regex where
  "ol_re =
     seqs [BolM, Star (Sym Space), Group 1 (Plus1 (Sym Digit)), Sym (Lit 46), Sym (Lit 32),
           Group 2 (Star (Sym Dot))]"

text \<open>\<open>/<\/ul>\s*<ul>/g\<close> and \<open>/<\/ol>\s*<ol>/g\<close>\<close>

definition ul_merge_re :: regex where
  "ul_merge_re = seqs [str (js ''</ul>''), Star (Sym Space), str (js ''<ul>'')]"

definition ol_merge_re :: regex where
  "ol_merge_re = seqs [str (js ''</ol>''), Star (Sym Space), str (js ''<ol>'')]"

text \<open>\<open>/\*\*(.*?)\*\*/g\<close>, \<open>/\*(.*?)\*/g\<close> and \<open>/~~(.*?)~~/g\<close>\<close>

definition bold_re :: regex where
  "bold_re = seqs [str (js ''**''), Group 1 (StarLazy (Sym Dot)), str (js ''**'')]"

definition italic_re :: regex where
  "italic_re = seqs [Sym (Lit 42), Group 1 (StarLazy (Sym Dot)), Sym (Lit 42)]"

definition del_re :: regex where
  "del_re = seqs [str (js ''~~''), Group 1 (StarLazy (Sym Dot)), str (js ''~~'')]"

text \<open>\<open>/`([^`]+)`/g\<close> and \<open>/\[([^\]]+)\]\(([^)]+)\)/g\<close>\<close>

definition code_re :: regex where
  "code_re = seqs [Sym (Lit 96), Group 1 (Plus1 (Sym (NoneOf [96]))), Sym (Lit 96)]"

definition link_re :: regex where
  "link_re =
     seqs [Sym (Lit 91), Group 1 (Plus1 (Sym (NoneOf [93]))), Sym (Lit 93),
           Sym (Lit 40), Group 2 (Plus1 (Sym (NoneOf [41]))), Sym (Lit 41)]"

text \<open>\<open>/\n\s*\n/\<close>, the separator of paragraphs.\<close>

definition para_sep_re :: regex where
  "para_sep_re = seqs [Sym (Lit 10), Star (Sym Space), Sym (Lit 10)]"

text \<open>\<open>/^(<\/?(h[1-6]|ul|ol|li|blockquote|table|thead|tbody|tr|th|td|pre|code))/\<close>\<close>

definition block_re :: regex where
  "block_re =
     seqs [Bos,
           Group 1
             (seqs [Sym (Lit 60), Opt (Sym (Lit 47)),
                    Group 2
                      (alts [Seq (Sym (Lit 104)) (Sym (CRange 49 54)),
                             str (js ''ul''), str (js ''ol''), str (js ''li''),
                             str (js ''blockquote''), str (js ''table''), str (js ''thead''),
                             str (js ''tbody''), str (js ''tr''), str (js ''th''),
                             str (js ''td''), str (js ''pre''), str (js ''code'')])])]"

text \<open>The three stages of \<open>markdownToHTML\<close>: block elements, inline elements, paragraphs.\<close>

definition headings :: "jsstring \<Rightarrow> jsstring" where
  "headings markdown =
     replace_all (heading_re (js ''# '')) (Template (js ''<h1>$1</h1>''))
       (replace_all (heading_re (js ''## '')) (Template (js ''<h2>$1</h2>''))
         (replace_all (heading_re (js ''### '')) (Template (js ''<h3>$1</h3>''))
           (replace_all (heading_re (js ''#### '')) (Template (js ''<h4>$1</h4>''))
             (replace_all (heading_re (js ''##### '')) (Template (js ''<h5>$1</h5>''))
               (replace_all (heading_re (js ''###### '')) (Template (js ''<h6>$1</h6>''))
                  markdown)))))"

definition list_rules :: "jsstring \<Rightarrow> jsstring" where
  "list_rules s =
     replace_all ol_merge_re (Template [])
       (replace_all ul_merge_re (Template [])
         (replace_all ol_re (Template (js ''<ol><li>$2</li></ol>''))
           (replace_all ul_re (Template (js ''<ul><li>$2</li></ul>'')) s)))"

definition blocks :: "jsstring \<Rightarrow> jsstring" where
  "blocks markdown =
     list_rules
       (replace_all quote_re (Template (js ''<blockquote>$1</blockquote>''))
         (replace_all table_re (Callback table_cb)
           (replace_all fence_re (Callback fence_cb)
             (headings markdown))))"

definition inlines :: "jsstring \<Rightarrow> jsstring" where
  \<open>inlines html =
     replace_all link_re
       (Template (js ''<a href="$2" target="_blank" rel="noopener noreferrer" class="text-brand hover:underline">$1</a>''))
       (replace_all code_re
         (Template (js ''<code class="bg-slate-200 dark:bg-slate-900 text-amber-600 dark:text-amber-400 px-1.5 py-1 rounded text-sm font-mono">$1</code>''))
         (replace_all del_re (Template (js ''<del>$1</del>''))
           (replace_all italic_re (Template (js ''<em>$1</em>''))
             (replace_all bold_re (Template (js ''<strong>$1</strong>'')) html))))\<close>

definition para :: "jsstring \<Rightarrow> jsstring" where
  "para p =
     (if trim p = [] then []
      else if re_test block_re (trim p) then p
      else js ''<p>'' @ replace_all (Sym (Lit 10)) (Template (js ''<br>'')) (trim p) @ js ''</p>'')"

definition paragraphs :: "jsstring \<Rightarrow> jsstring" where
  "paragraphs html = concat (map para (split_re para_sep_re html))"

definition markdownToHTML :: "jsstring \<Rightarrow> jsstring" where
  "markdownToHTML markdown = paragraphs (inlines (blocks markdown))"

section \<open>The math shielding of \<open>renderContent\<close>\<close>

definition placeholder :: jsstring where
  "placeholder = js ''___MATHJAX_PLACEHOLDER___''"

definition token :: "nat \<Rightarrow> jsstring" where
  "token index = placeholder @ digits_of index @ placeholder"

text \<open>\<open>/(\$\$[\s\S]*?\$\$|\$[\s\S]*?\$)/g\<close>\<close>

definition math_re :: regex where
  "math_re =
     Group 1
       (Alt (seqs [str (js ''$$''), StarLazy (Sym AnyCU), str (js ''$$'')])
            (seqs [Sym (Lit 36), StarLazy (Sym AnyCU), Sym (Lit 36)]))"

text \<open>
  The callback of the extraction: the state is the array \<open>mathBlocks\<close>; the match is
  pushed and the token of its index returned.
\<close>

definition math_cb :: "jsstring list \<Rightarrow> minfo \<Rightarrow> jsstring \<times> jsstring list" where
  "math_cb mathBlocks mi = (token (length mathBlocks), mathBlocks @ [matched mi])"

text \<open>
  Lines 191 to 198 of the source, \<open>extract\<close> in the specification: the shielded text
  and the spans.
\<close>

definition extract_math :: "jsstring \<Rightarrow> jsstring \<times> jsstring list" where
  "extract_math text = replace_loop_st math_re math_cb [] [] text"

text \<open>
  Lines 202 to 205, \<open>restore\<close> in the specification: \<open>forEach\<close> over the spans
  with their indices.
\<close>

fun restore_from :: "nat \<Rightarrow> jsstring list \<Rightarrow> jsstring \<Rightarrow> jsstring" where
  "restore_from index [] html = html"
| "restore_from index (block # bs) html =
     restore_from (Suc index) bs (replace_first (token index) block html)"

definition restore_math :: "jsstring \<Rightarrow> jsstring list \<Rightarrow> jsstring" where
  "restore_math html mathBlocks = restore_from 0 mathBlocks html"

text \<open>\<open>renderContent\<close>: nothing for the empty text, otherwise the markup put in the element.\<close>

definition renderContent :: "jsstring \<Rightarrow> jsstring option" where
  "renderContent text =
     (if text = [] then None
      else (case extract_math text of
              (textWithPlaceholders, mathBlocks) \<Rightarrow>
                Some (restore_math (markdownToHTML textWithPlaceholders) mathBlocks)))"

section \<open>Vocabulary of the claims\<close>

text \<open>\<open>s.includes(pat)\<close>: the text \<open>pat\<close> occurs in \<open>s\<close>.\<close>

definition occurs_in :: "jsstring \<Rightarrow> jsstring \<Rightarrow> bool" where
  "occurs_in pat s \<longleftrightarrow> find_sub pat [] s \<noteq> None"

text \<open>The replacement of one code unit \<open><\<close> or \<open>>\<close> by its entity, as the specification words the escaping of fenced code.\<close>

definition escape_cu :: "cu \<Rightarrow> jsstring" where
  "escape_cu c = (if c = 60 then js ''&lt;'' else if c = 62 then js ''&gt;'' else [c])"

text \<open>The lines of a text, joined by line feeds as \<open>lines.join("\n")\<close> does.\<close>

fun join_lines :: "jsstring list \<Rightarrow> jsstring" where
  "join_lines [] = []"
| "join_lines [l] = l"
| "join_lines (l # ls) = l @ 10 # join_lines ls"














section \<open>Vocabulary of the proofs\<close>

text \<open>
  Every line of a text starts with a code unit that satisfies \<open>P\<close>; \<open>b\<close> tells
  whether the text itself starts at the start of a line.
\<close>

fun line_heads :: "(cu \<Rightarrow> bool) \<Rightarrow> bool \<Rightarrow> jsstring \<Rightarrow> bool" where
  "line_heads P b [] = True"
| "line_heads P b (a # s) = ((b \<longrightarrow> P a) \<and> line_heads P (is_line_terminator a) s)"

text \<open>
  A line that goes on, after white space, with a code unit that satisfies \<open>P\<close> and has
  no line terminator after it.
\<close>

definition shaped :: "(cu \<Rightarrow> bool) \<Rightarrow> jsstring \<Rightarrow> bool" where
  "shaped P l \<longleftrightarrow>
     (case dropWhile is_space l of [] \<Rightarrow> False
      | c # t \<Rightarrow> P c \<and> list_all (\<lambda>a. \<not> is_line_terminator a) t)"





text \<open>
  A state \<open>y\<close> lies ahead of a state \<open>x\<close> in the same text: the matcher only moves
  forward, one code unit at a time.
\<close>

definition reaches :: "mstate \<Rightarrow> mstate \<Rightarrow> bool" where
  "reaches x y \<longleftrightarrow>
     rev (pre y) @ rest y = rev (pre x) @ rest x \<and> length (rest y) \<le> length (rest x)"

text \<open>
  A pattern sets the group \<open>n\<close> in every match: the group lies on every path through
  the pattern, outside any quantifier. A continuation keeps the group: a capture that is
  set when it is called is set in what it returns.
\<close>

primrec sets_group :: "nat \<Rightarrow> regex \<Rightarrow> bool" where
  "sets_group n Empty = False"
| "sets_group n (Sym c) = False"
| "sets_group n BolM = False"
| "sets_group n EolM = False"
| "sets_group n Bos = False"
| "sets_group n (Seq a b) = (sets_group n a \<or> sets_group n b)"
| "sets_group n (Alt a b) = (sets_group n a \<and> sets_group n b)"
| "sets_group n (Star a) = False"
| "sets_group n (StarLazy a) = False"
| "sets_group n (Opt a) = False"
| "sets_group n (Group m a) = (m = n \<or> sets_group n a)"

definition keeps_group :: "nat \<Rightarrow> cont \<Rightarrow> bool" where
  "keeps_group n k \<longleftrightarrow> (\<forall>y z. k y = Some z \<longrightarrow> caps y n \<noteq> None \<longrightarrow> caps z n \<noteq> None)"

section \<open>Evaluation of the model\<close>

text \<open>
  The equations that the simplifier needs to run the model on a given input: the loops are
  unfolded one step at a time, the branches of a conditional only once its condition is
  decided.
\<close>

lemmas eval_engine =
  replace_all_def replace_loop.simps replace_loop_st.simps mk_info_def match_here_def str_def
  star_lazy.simps star_greedy.simps Plus1_def at_line_start_def at_line_end_def
  is_line_terminator_def is_white_space_def is_space_def is_digit_def capture_ref_def
  split_re_def split_loop.simps re_test_def trim_def slice_def split_chr_def group_text_def
  replace_first_def digits_of.simps

lemmas eval_patterns =
  heading_re_def fence_re_def table_re_def quote_re_def ul_re_def ol_re_def ul_merge_re_def
  ol_merge_re_def bold_re_def italic_re_def del_re_def code_re_def link_re_def para_sep_re_def
  block_re_def math_re_def

lemmas eval_converter =
  markdownToHTML_def paragraphs_def para_def inlines_def blocks_def list_rules_def headings_def
  fence_cb_def escape_code_def table_cb_def

lemmas eval_math =
  placeholder_def token_def math_cb_def extract_math_def restore_math_def

section \<open>General facts about the replacement loops and the matcher\<close>

text \<open>A pattern that matches at no position of a text leaves the text as it is.\<close>

lemma replace_loop_no_match:
  assumes "\<And>u v. s = u @ v \<Longrightarrow> match_here r (rev u @ p) v = None"
  shows "replace_loop r f p s = s"
  using assms
proof (induction s arbitrary: p)
  case Nil
  from Nil[of "[]" "[]"] show ?case by (simp add: replace_loop.simps)
next
  case (Cons a s)
  have here: "match_here r p (a # s) = None" using Cons.prems[of "[]" "a # s"] by simp
  have "replace_loop r f (a # p) s = s"
  proof (rule Cons.IH)
    fix u v assume "s = u @ v"
    then show "match_here r (rev u @ a # p) v = None"
      using Cons.prems[of "a # u" v] by simp
  qed
  with here show ?case by (simp add: replace_loop.simps)
qed

lemma replace_loop_st_no_match:
  assumes "\<And>u v. s = u @ v \<Longrightarrow> match_here r (rev u @ p) v = None"
  shows "replace_loop_st r f st p s = (s, st)"
  using assms
proof (induction s arbitrary: p)
  case Nil
  from Nil[of "[]" "[]"] show ?case by (simp add: replace_loop_st.simps)
next
  case (Cons a s)
  have here: "match_here r p (a # s) = None" using Cons.prems[of "[]" "a # s"] by simp
  have "replace_loop_st r f st (a # p) s = (s, st)"
  proof (rule Cons.IH)
    fix u v assume "s = u @ v"
    then show "match_here r (rev u @ a # p) v = None"
      using Cons.prems[of "a # u" v] by simp
  qed
  with here show ?case by (simp add: replace_loop_st.simps)
qed


lemma at_line_start_Cons [simp]: "at_line_start (a # p) = is_line_terminator a"
  by (simp add: at_line_start_def)

lemma at_line_start_Nil [simp]: "at_line_start []"
  by (simp add: at_line_start_def)





lemma replace_loop_skip:
  assumes "\<forall>a\<in>set x. P a"
    and fail: "\<And>q v a. P a \<Longrightarrow> match_here r q (a # v) = None"
  shows "replace_loop r f p (x @ w) = x @ replace_loop r f (rev x @ p) w"
  using assms(1)
proof (induction x arbitrary: p)
  case Nil
  show ?case by simp
next
  case (Cons a x)
  then have "match_here r p (a # x @ w) = None" by (simp add: fail)
  then have "replace_loop r f p ((a # x) @ w) = a # replace_loop r f (a # p) (x @ w)"
    by (subst replace_loop.simps) simp
  with Cons show ?case by simp
qed




lemma replace_loop_anchored_one_line:
  assumes nl: "\<forall>c\<in>set s. \<not> is_line_terminator c"
    and first: "matcher r Some \<lparr>pre = [], rest = s, caps = Map.empty\<rparr> = None"
  shows "replace_loop (Seq BolM r) f [] s = s"
proof (rule replace_loop_no_match)
  fix u v assume s: "s = u @ v"
  show "match_here (Seq BolM r) (rev u @ []) v = None"
  proof (cases u rule: rev_cases)
    case Nil
    with s first show ?thesis by (simp add: match_here_def)
  next
    case (snoc u' a)
    with s nl have "\<not> is_line_terminator a" by simp
    with snoc show ?thesis by (simp add: match_here_def at_line_start_def)
  qed
qed

lemma replace_loop_one_char:
  assumes "\<And>mi. f mi = t"
  shows "replace_loop (Sym (Lit c)) f p s = concat (map (\<lambda>a. if a = c then t else [a]) s)"
proof (induction s arbitrary: p)
  case Nil
  show ?case by (simp add: replace_loop.simps match_here_def)
next
  case (Cons a s)
  show ?case
    by (subst replace_loop.simps) (simp add: match_here_def assms Cons.IH)
qed


lemma not_at_line_start_after:
  "\<forall>c\<in>set x. \<not> is_line_terminator c \<Longrightarrow> \<not> is_line_terminator b \<Longrightarrow>
   \<not> at_line_start (rev x @ b # p)"
  by (cases x rule: rev_cases) simp_all

lemma line_heads_skip:
  "\<forall>c\<in>set x. \<not> is_line_terminator c \<Longrightarrow> line_heads P False (x @ w) = line_heads P False w"
  by (induction x) simp_all

lemma line_heads_line:
  assumes "l \<noteq> []" "P (hd l)" "\<forall>c\<in>set l. \<not> is_line_terminator c"
  shows "line_heads P b (l @ w) = line_heads P False w"
proof -
  from assms obtain a l' where l: "l = a # l'" by (cases l) auto
  with assms show ?thesis by (simp add: line_heads_skip)
qed

lemma line_heads_join:
  assumes "\<forall>l\<in>set ls. l \<noteq> [] \<and> P (hd l) \<and> (\<forall>c\<in>set l. \<not> is_line_terminator c)"
  shows "line_heads P b (join_lines ls)"
  using assms
proof (induction ls arbitrary: b rule: join_lines.induct)
  case 1
  show ?case by simp
next
  case (2 l)
  then have "line_heads P b (l @ []) = line_heads P False []"
    by (intro line_heads_line) simp_all
  then show ?case by simp
next
  case (3 l l' ls)
  then have "line_heads P b (l @ 10 # join_lines (l' # ls)) =
      line_heads P False (10 # join_lines (l' # ls))"
    by (intro line_heads_line) simp_all
  moreover have "line_heads P True (join_lines (l' # ls))"
    using 3 by simp
  ultimately show ?case by (simp add: is_line_terminator_def)
qed

lemma set_join_lines: "set (join_lines ls) \<subseteq> insert 10 (\<Union>l\<in>set ls. set l)"
  by (induction ls rule: join_lines.induct) auto

lemma not_in_join_lines:
  "c \<noteq> 10 \<Longrightarrow> \<forall>l\<in>set ls. c \<notin> set l \<Longrightarrow> c \<notin> set (join_lines ls)"
  using set_join_lines[of ls] by auto





section \<open>The matcher and the loops read one text from left to right\<close>

text \<open>
  Whatever a pattern returns is what its continuation returned at a state ahead in the
  same text. So a match ends inside the text it started in, the text before the match,
  the match and the text after it make up the input, and replacing every match by itself
  (the replacement string \<open>$&\<close>) gives the text back, for every pattern.
\<close>

lemma reaches_refl: "reaches x x"
  by (simp add: reaches_def)

lemma reaches_trans: "reaches x y \<Longrightarrow> reaches y z \<Longrightarrow> reaches x z"
  by (simp add: reaches_def)

lemma star_greedy_cont:
  assumes ma: "\<And>k x z. ma k x = Some z \<Longrightarrow> \<exists>y. reaches x y \<and> k y = Some z"
    and "star_greedy ma k x = Some z"
  shows "\<exists>y. reaches x y \<and> k y = Some z"
  using assms(2)
proof (induction "length (rest x)" arbitrary: x rule: less_induct)
  case less
  let ?K = "\<lambda>y. if length (rest y) < length (rest x) then star_greedy ma k y else None"
  show ?case
  proof (cases "ma ?K x")
    case None
    with less.prems have "k x = Some z" by (subst (asm) star_greedy.simps) simp
    then show ?thesis using reaches_refl by blast
  next
    case (Some r)
    with less.prems have "r = z" by (subst (asm) star_greedy.simps) simp
    with Some obtain y where xy: "reaches x y" and ky: "?K y = Some z" using ma by blast
    from ky have lt: "length (rest y) < length (rest x)" and st: "star_greedy ma k y = Some z"
      by (auto split: if_splits)
    from less.hyps[OF lt st] obtain y' where "reaches y y'" and "k y' = Some z" by blast
    with xy show ?thesis using reaches_trans by blast
  qed
qed

lemma star_lazy_cont:
  assumes ma: "\<And>k x z. ma k x = Some z \<Longrightarrow> \<exists>y. reaches x y \<and> k y = Some z"
    and "star_lazy ma k x = Some z"
  shows "\<exists>y. reaches x y \<and> k y = Some z"
  using assms(2)
proof (induction "length (rest x)" arbitrary: x rule: less_induct)
  case less
  let ?K = "\<lambda>y. if length (rest y) < length (rest x) then star_lazy ma k y else None"
  show ?case
  proof (cases "k x")
    case (Some r)
    with less.prems have "r = z" by (subst (asm) star_lazy.simps) simp
    with Some show ?thesis using reaches_refl by blast
  next
    case None
    with less.prems have "ma ?K x = Some z" by (subst (asm) star_lazy.simps) simp
    then obtain y where xy: "reaches x y" and ky: "?K y = Some z" using ma by blast
    from ky have lt: "length (rest y) < length (rest x)" and st: "star_lazy ma k y = Some z"
      by (auto split: if_splits)
    from less.hyps[OF lt st] obtain y' where "reaches y y'" and "k y' = Some z" by blast
    with xy show ?thesis using reaches_trans by blast
  qed
qed

lemma matcher_cont:
  "matcher r k x = Some z \<Longrightarrow> \<exists>y. reaches x y \<and> k y = Some z"
proof (induction r arbitrary: k x z)
  case Empty
  then show ?case using reaches_refl by auto
next
  case (Sym c)
  then show ?case
    by (auto simp add: reaches_def split: list.splits if_splits
        intro!: exI[of _ "x\<lparr>pre := hd (rest x) # pre x, rest := tl (rest x)\<rparr>"])
next
  case BolM
  then show ?case using reaches_refl by (auto split: if_splits)
next
  case EolM
  then show ?case using reaches_refl by (auto split: if_splits)
next
  case Bos
  then show ?case using reaches_refl by (auto split: if_splits)
next
  case (Seq a b)
  from Seq.prems have "matcher a (matcher b k) x = Some z" by simp
  from Seq.IH(1)[OF this] obtain y where xy: "reaches x y" and "matcher b k y = Some z" by blast
  from Seq.IH(2)[OF this(2)] obtain y' where "reaches y y'" and "k y' = Some z" by blast
  with xy show ?case using reaches_trans by blast
next
  case (Alt a b)
  then show ?case by (auto split: option.splits)
next
  case (Star a)
  from Star.prems have "star_greedy (matcher a) k x = Some z" by simp
  with Star.IH show ?case by (rule star_greedy_cont)
next
  case (StarLazy a)
  from StarLazy.prems have "star_lazy (matcher a) k x = Some z" by simp
  with StarLazy.IH show ?case by (rule star_lazy_cont)
next
  case (Opt a)
  show ?case
  proof (cases "matcher a (\<lambda>y. if length (rest y) < length (rest x) then k y else None) x")
    case None
    with Opt.prems have "k x = Some z" by simp
    then show ?thesis using reaches_refl by blast
  next
    case (Some r)
    with Opt.prems have "r = z" by simp
    with Some Opt.IH obtain y where "reaches x y"
      and "(if length (rest y) < length (rest x) then k y else None) = Some z" by blast
    then show ?thesis by (auto split: if_splits)
  qed
next
  case (Group n a)
  from Group.prems have "matcher a
       (\<lambda>y. k (y\<lparr>caps := (caps y)(n \<mapsto> rev (take (length (pre y) - length (pre x)) (pre y)))\<rparr>)) x = Some z"
    by simp
  from Group.IH[OF this] obtain y where xy: "reaches x y"
    and "k (y\<lparr>caps := (caps y)(n \<mapsto> rev (take (length (pre y) - length (pre x)) (pre y)))\<rparr>) = Some z"
    by blast
  moreover from xy have
    "reaches x (y\<lparr>caps := (caps y)(n \<mapsto> rev (take (length (pre y) - length (pre x)) (pre y)))\<rparr>)"
    by (simp add: reaches_def)
  ultimately show ?case by blast
qed

lemma match_here_same_text:
  assumes "match_here r p s = Some y"
  shows "rev (pre y) @ rest y = rev p @ s" and "length (rest y) \<le> length s"
proof -
  from assms obtain y' where "reaches \<lparr>pre = p, rest = s, caps = Map.empty\<rparr> y'" and "Some y' = Some y"
    unfolding match_here_def using matcher_cont by blast
  then show "rev (pre y) @ rest y = rev p @ s" and "length (rest y) \<le> length s"
    by (simp_all add: reaches_def)
qed

lemma match_here_splits:
  assumes "match_here r p s = Some y"
  shows "take (length s - length (rest y)) s @ rest y = s"
    and "pre y = rev (take (length s - length (rest y)) s) @ p"
proof -
  note m = match_here_same_text[OF assms]
  from m(1) have "rev (rev (pre y) @ rest y) = rev (rev p @ s)" by simp
  then have e: "rev (rest y) @ pre y = rev s @ p" by simp
  from m(2) obtain n where n: "length s = n + length (rest y)"
    by (metis le_add_diff_inverse2)
  from m(1) have "drop (length (rev (pre y))) (rev (pre y) @ rest y) = drop (length (pre y)) (rev p @ s)"
    by simp
  then have r: "rest y = drop (length (pre y)) (rev p @ s)" by simp
  from m(1) have "length (pre y) + length (rest y) = length p + length s"
    by (metis length_append length_rev)
  with n have lp: "length (pre y) = length p + n" by simp
  with r have r': "rest y = drop n s" by simp
  with n show "take (length s - length (rest y)) s @ rest y = s" by simp
  from m(1) have "take (length (pre y)) (rev (pre y) @ rest y) = take (length (pre y)) (rev p @ s)"
    by simp
  then have "rev (pre y) = rev p @ take n s" using lp by simp
  then have "pre y = rev (rev p @ take n s)" by (metis rev_rev_ident)
  with n show "pre y = rev (take (length s - length (rest y)) s) @ p" by simp
qed

lemma replace_loop_identity:
  "replace_loop r matched p s = s"
proof (induction "length s" arbitrary: p s rule: less_induct)
  case less
  show ?case
  proof (cases "match_here r p s")
    case None
    show ?thesis
    proof (cases s)
      case Nil
      with None show ?thesis by (subst replace_loop.simps) simp
    next
      case (Cons a as)
      with less.hyps[of as "a # p"] None show ?thesis by (subst replace_loop.simps) simp
    qed
  next
    case (Some y)
    note sp = match_here_splits[OF Some]
    show ?thesis
    proof (cases "length (rest y) < length s")
      case True
      with less.hyps[of "rest y" "pre y"] Some sp show ?thesis
        by (subst replace_loop.simps) (simp add: mk_info_def)
    next
      case False
      with match_here_same_text(2)[OF Some] have "length (rest y) = length s" by simp
      show ?thesis
      proof (cases s)
        case Nil
        with Some show ?thesis by (subst replace_loop.simps) (simp add: mk_info_def)
      next
        case (Cons a as)
        with less.hyps[of as "a # p"] Some False show ?thesis
          by (subst replace_loop.simps) (simp add: mk_info_def)
      qed
    qed
  qed
qed

lemma replace_all_match_itself: "replace_all r (Template (js ''$&'')) s = s"
proof -
  have "apply_replacement (ngroups r) (Template (js ''$&'')) = matched"
    by (rule ext) simp
  then show ?thesis by (simp add: replace_all_def replace_loop_identity)
qed

section \<open>The captures that the callbacks read\<close>

text \<open>
  A capture, once set, stays set, and a group on every path through a pattern is set in
  every match. The callbacks of the fence rule and of the table rule read such groups.
\<close>

lemma keeps_group_Some: "keeps_group n Some"
  by (auto simp add: keeps_group_def)

lemma star_greedy_keeps:
  assumes ma: "\<And>k. keeps_group n k \<Longrightarrow> keeps_group n (ma k)"
    and k: "keeps_group n k"
  shows "keeps_group n (star_greedy ma k)"
proof -
  have "star_greedy ma k x = Some z \<Longrightarrow> caps x n \<noteq> None \<Longrightarrow> caps z n \<noteq> None" for x z
  proof (induction "length (rest x)" arbitrary: x z rule: less_induct)
    case less
    let ?K = "\<lambda>y. if length (rest y) < length (rest x) then star_greedy ma k y else None"
    have "keeps_group n ?K"
      unfolding keeps_group_def using less.hyps by (auto split: if_splits)
    then have K: "keeps_group n (ma ?K)" by (rule ma)
    show ?case
    proof (cases "ma ?K x")
      case None
      with less.prems have "k x = Some z" by (subst (asm) star_greedy.simps) simp
      with k less.prems(2) show ?thesis by (auto simp add: keeps_group_def)
    next
      case (Some r)
      with less.prems have "ma ?K x = Some z" by (subst (asm) star_greedy.simps) simp
      with K less.prems(2) show ?thesis by (auto simp add: keeps_group_def)
    qed
  qed
  then show ?thesis by (auto simp add: keeps_group_def)
qed

lemma star_lazy_keeps:
  assumes ma: "\<And>k. keeps_group n k \<Longrightarrow> keeps_group n (ma k)"
    and k: "keeps_group n k"
  shows "keeps_group n (star_lazy ma k)"
proof -
  have "star_lazy ma k x = Some z \<Longrightarrow> caps x n \<noteq> None \<Longrightarrow> caps z n \<noteq> None" for x z
  proof (induction "length (rest x)" arbitrary: x z rule: less_induct)
    case less
    let ?K = "\<lambda>y. if length (rest y) < length (rest x) then star_lazy ma k y else None"
    have "keeps_group n ?K"
      unfolding keeps_group_def using less.hyps by (auto split: if_splits)
    then have K: "keeps_group n (ma ?K)" by (rule ma)
    show ?case
    proof (cases "k x")
      case (Some r)
      with less.prems have "k x = Some z" by (subst (asm) star_lazy.simps) simp
      with k less.prems(2) show ?thesis by (auto simp add: keeps_group_def)
    next
      case None
      with less.prems have "ma ?K x = Some z" by (subst (asm) star_lazy.simps) simp
      with K less.prems(2) show ?thesis by (auto simp add: keeps_group_def)
    qed
  qed
  then show ?thesis by (auto simp add: keeps_group_def)
qed

lemma keeps_groupD:
  "keeps_group n k \<Longrightarrow> k y = Some z \<Longrightarrow> caps y n \<noteq> None \<Longrightarrow> caps z n \<noteq> None"
  unfolding keeps_group_def by blast

lemma keeps_groupI:
  "(\<And>y z. k y = Some z \<Longrightarrow> caps y n \<noteq> None \<Longrightarrow> caps z n \<noteq> None) \<Longrightarrow> keeps_group n k"
  unfolding keeps_group_def by blast

lemma matcher_keeps: "keeps_group n k \<Longrightarrow> keeps_group n (matcher r k)"
proof (induction r arbitrary: k)
  case Empty
  show "keeps_group n (matcher Empty k)"
  proof (rule keeps_groupI)
    fix x z assume "matcher Empty k x = Some z" and c: "caps x n \<noteq> None"
    then have "k x = Some z" by simp
    with Empty c show "caps z n \<noteq> None" using keeps_groupD by blast
  qed
next
  case (Sym c)
  show "keeps_group n (matcher (Sym c) k)"
  proof (rule keeps_groupI)
    fix x z assume m: "matcher (Sym c) k x = Some z" and c: "caps x n \<noteq> None"
    from m obtain a as where "rest x = a # as" and kz: "k (x\<lparr>pre := a # pre x, rest := as\<rparr>) = Some z"
      by (cases "rest x") (auto split: if_splits)
    from c have "caps (x\<lparr>pre := a # pre x, rest := as\<rparr>) n \<noteq> None" by simp
    with Sym kz show "caps z n \<noteq> None" using keeps_groupD by blast
  qed
next
  case BolM
  show "keeps_group n (matcher BolM k)"
  proof (rule keeps_groupI)
    fix x z assume "matcher BolM k x = Some z" and c: "caps x n \<noteq> None"
    then have "k x = Some z" by (simp split: if_splits)
    with BolM c show "caps z n \<noteq> None" using keeps_groupD by blast
  qed
next
  case EolM
  show "keeps_group n (matcher EolM k)"
  proof (rule keeps_groupI)
    fix x z assume "matcher EolM k x = Some z" and c: "caps x n \<noteq> None"
    then have "k x = Some z" by (simp split: if_splits)
    with EolM c show "caps z n \<noteq> None" using keeps_groupD by blast
  qed
next
  case Bos
  show "keeps_group n (matcher Bos k)"
  proof (rule keeps_groupI)
    fix x z assume "matcher Bos k x = Some z" and c: "caps x n \<noteq> None"
    then have "k x = Some z" by (simp split: if_splits)
    with Bos c show "caps z n \<noteq> None" using keeps_groupD by blast
  qed
next
  case (Seq a b)
  have "keeps_group n (matcher a (matcher b k))"
    by (rule Seq.IH(1)) (rule Seq.IH(2), rule Seq.prems)
  then show "keeps_group n (matcher (Seq a b) k)"
    by (simp add: keeps_group_def)
next
  case (Alt a b)
  note ka = Alt.IH(1)[OF Alt.prems] and kb = Alt.IH(2)[OF Alt.prems]
  show "keeps_group n (matcher (Alt a b) k)"
  proof (rule keeps_groupI)
    fix x z assume m: "matcher (Alt a b) k x = Some z" and c: "caps x n \<noteq> None"
    from m have "matcher a k x = Some z \<or> matcher b k x = Some z"
      by (simp split: option.splits)
    with ka kb c show "caps z n \<noteq> None" using keeps_groupD by blast
  qed
next
  case (Star a)
  have "keeps_group n (star_greedy (matcher a) k)"
    using Star.IH Star.prems by (rule star_greedy_keeps)
  then show "keeps_group n (matcher (Star a) k)" by (simp add: keeps_group_def)
next
  case (StarLazy a)
  have "keeps_group n (star_lazy (matcher a) k)"
    using StarLazy.IH StarLazy.prems by (rule star_lazy_keeps)
  then show "keeps_group n (matcher (StarLazy a) k)" by (simp add: keeps_group_def)
next
  case (Opt a)
  show "keeps_group n (matcher (Opt a) k)"
  proof (rule keeps_groupI)
    fix x z assume m: "matcher (Opt a) k x = Some z" and c: "caps x n \<noteq> None"
    let ?K = "\<lambda>y. if length (rest y) < length (rest x) then k y else None"
    have "keeps_group n ?K"
    proof (rule keeps_groupI)
      fix y z' assume "?K y = Some z'" and cy: "caps y n \<noteq> None"
      then have "k y = Some z'" by (simp split: if_splits)
      with Opt.prems cy show "caps z' n \<noteq> None" using keeps_groupD by blast
    qed
    then have K: "keeps_group n (matcher a ?K)" by (rule Opt.IH)
    from m have "matcher a ?K x = Some z \<or> k x = Some z"
      by (simp split: option.splits)
    with K Opt.prems c show "caps z n \<noteq> None" using keeps_groupD by blast
  qed
next
  case (Group m a)
  show "keeps_group n (matcher (Group m a) k)"
  proof (rule keeps_groupI)
    fix x z assume mt: "matcher (Group m a) k x = Some z" and c: "caps x n \<noteq> None"
    let ?K = "\<lambda>y. k (y\<lparr>caps := (caps y)(m \<mapsto> rev (take (length (pre y) - length (pre x)) (pre y)))\<rparr>)"
    have "keeps_group n ?K"
    proof (rule keeps_groupI)
      fix y z' assume kz: "?K y = Some z'" and cy: "caps y n \<noteq> None"
      from cy have "caps (y\<lparr>caps := (caps y)(m \<mapsto> rev (take (length (pre y) - length (pre x)) (pre y)))\<rparr>) n \<noteq> None"
        by simp
      with Group.prems kz show "caps z' n \<noteq> None" using keeps_groupD by blast
    qed
    then have "keeps_group n (matcher a ?K)" by (rule Group.IH)
    moreover from mt have "matcher a ?K x = Some z" by simp
    ultimately show "caps z n \<noteq> None" using c using keeps_groupD by blast
  qed
qed

lemma matcher_sets_group:
  "sets_group n r \<Longrightarrow> keeps_group n k \<Longrightarrow> matcher r k x = Some z \<Longrightarrow> caps z n \<noteq> None"
proof (induction r arbitrary: k x z)
  case (Seq a b)
  from Seq.prems(3) have m: "matcher a (matcher b k) x = Some z" by simp
  show ?case
  proof (cases "sets_group n a")
    case True
    from Seq.prems(2) have "keeps_group n (matcher b k)" by (rule matcher_keeps)
    from Seq.IH(1)[OF True this m] show ?thesis .
  next
    case False
    with Seq.prems(1) have b: "sets_group n b" by simp
    from matcher_cont[OF m] obtain y where "matcher b k y = Some z" by blast
    from Seq.IH(2)[OF b Seq.prems(2) this] show ?thesis .
  qed
next
  case (Alt a b)
  then show ?case by (auto split: option.splits)
next
  case (Group m a)
  let ?K = "\<lambda>y. k (y\<lparr>caps := (caps y)(m \<mapsto> rev (take (length (pre y) - length (pre x)) (pre y)))\<rparr>)"
  from Group.prems(3) have mt: "matcher a ?K x = Some z" by simp
  have K: "keeps_group n ?K"
  proof (rule keeps_groupI)
    fix y z' assume kz: "?K y = Some z'" and cy: "caps y n \<noteq> None"
    from cy have "caps (y\<lparr>caps := (caps y)(m \<mapsto> rev (take (length (pre y) - length (pre x)) (pre y)))\<rparr>) n \<noteq> None"
      by simp
    with Group.prems(2) kz show "caps z' n \<noteq> None" using keeps_groupD by blast
  qed
  show ?case
  proof (cases "m = n")
    case True
    from matcher_cont[OF mt] obtain y where "?K y = Some z" by blast
    then have "k (y\<lparr>caps := (caps y)(n \<mapsto> rev (take (length (pre y) - length (pre x)) (pre y)))\<rparr>) = Some z"
      using True by simp
    moreover have "caps (y\<lparr>caps := (caps y)(n \<mapsto> rev (take (length (pre y) - length (pre x)) (pre y)))\<rparr>) n \<noteq> None"
      by simp
    ultimately show ?thesis using Group.prems(2) keeps_groupD by blast
  next
    case False
    with Group.prems(1) have "sets_group n a" by simp
    from Group.IH[OF this K mt] show ?thesis .
  qed
qed simp_all

lemma match_here_sets_group:
  "sets_group n r \<Longrightarrow> match_here r p s = Some y \<Longrightarrow> caps y n \<noteq> None"
  unfolding match_here_def by (rule matcher_sets_group[OF _ keeps_group_Some])

lemma callback_patterns_set_groups:
  "sets_group 1 fence_re" "sets_group 2 fence_re"
  "sets_group 1 table_re" "sets_group 2 table_re" "sets_group 3 table_re"
  by (simp_all add: fence_re_def table_re_def str_def Plus1_def)

lemma callback_groups_set:
  "match_here fence_re p s = Some y \<Longrightarrow> caps y 1 \<noteq> None \<and> caps y 2 \<noteq> None"
  "match_here table_re p s = Some y \<Longrightarrow> caps y 1 \<noteq> None \<and> caps y 2 \<noteq> None \<and> caps y 3 \<noteq> None"
  using match_here_sets_group callback_patterns_set_groups by blast+

section \<open>Occurrences, literal texts and runs of a class\<close>












text \<open>Lines that go on, after white space, with a given kind of code unit.\<close>

lemma shapedE:
  assumes "shaped P l"
  obtains w c t where "l = w @ c # t" "\<forall>a\<in>set w. is_space a" "\<not> is_space c" "P c"
    "\<forall>a\<in>set t. \<not> is_line_terminator a"
proof -
  from assms obtain c t where d: "dropWhile is_space l = c # t" and c: "P c"
    and t: "list_all (\<lambda>a. \<not> is_line_terminator a) t"
    unfolding shaped_def by (cases "dropWhile is_space l") simp_all
  have 1: "l = takeWhile is_space l @ c # t"
    using takeWhile_dropWhile_id[of is_space l] unfolding d by simp
  have 2: "\<forall>a\<in>set (takeWhile is_space l). is_space a"
    using set_takeWhileD by fast
  have "\<not> is_space (hd (dropWhile is_space l))"
    by (rule hd_dropWhile) (simp only: d, simp)
  then have 3: "\<not> is_space c" unfolding d by simp
  from t have 4: "\<forall>a\<in>set t. \<not> is_line_terminator a" by (simp only: list_all_iff)
  from 1 2 3 c 4 show ?thesis by (rule that)
qed

lemma shapedI:
  assumes "\<forall>a\<in>set w. is_space a" "\<not> is_space c" "P c" "\<forall>a\<in>set t. \<not> is_line_terminator a"
  shows "shaped P (w @ c # t)"
proof -
  have "dropWhile is_space (w @ c # t) = dropWhile is_space (c # t)"
    by (rule dropWhile_append2) (use assms(1) in blast)
  then have "dropWhile is_space (w @ c # t) = c # t"
    using assms(2) by simp
  with assms(3,4) show ?thesis unfolding shaped_def by (simp add: list_all_iff)
qed

lemma shaped_mono:
  assumes "shaped P l" and "\<And>a. P a \<Longrightarrow> Q a"
  shows "shaped Q l"
proof -
  from assms(1) obtain w c t where l: "l = w @ c # t" and w: "\<forall>a\<in>set w. is_space a"
    and c: "\<not> is_space c" "P c" and t: "\<forall>a\<in>set t. \<not> is_line_terminator a" by (rule shapedE)
  from c(2) have "Q c" by (rule assms(2))
  with w c(1) have "shaped Q (w @ c # t)" using t by (rule shapedI)
  then show ?thesis unfolding l .
qed








section \<open>The claims\<close>

text \<open>
  C1. For the input \<open>| a | b |\<close>, \<open>| --- | --- |\<close>, \<open>| 1 | 2 |\<close> on three lines, the
  specification expects a table whose header row has the cells \<open>a\<close> and \<open>b\<close> and whose
  body has one row with the cells \<open>1\<close> and \<open>2\<close>. The converter returns the body row as
  expected, but a header row with no cell: the first capture is the header line without
  its outer bars, and \<open>slice(1, -1)\<close> then takes away the first and the last real cell.
\<close>

theorem C1_table_header_cells_lost:
  "markdownToHTML (js ''| a | b |\<newline>| --- | --- |\<newline>| 1 | 2 |'') =
     js ''<table><thead><tr></tr></thead><tbody><tr><td>1</td><td>2</td></tr></tbody></table>''"
  by (simp add: eval_engine eval_patterns eval_converter)

lemma math_re_needs_dollar: "36 \<notin> set v \<Longrightarrow> match_here math_re q v = None"
  by (cases v) (simp_all add: match_here_def math_re_def str_def)

lemma extract_math_no_dollar: "36 \<notin> set s \<Longrightarrow> extract_math s = (s, [])"
  unfolding extract_math_def
  by (rule replace_loop_st_no_match) (auto intro: math_re_needs_dollar)

text \<open>
  C2. For every text without a dollar sign (code unit 36), extraction captures no span and
  returns the text unchanged, so restoring after the conversion of the shielded text gives
  the conversion of the text itself; \<open>renderContent\<close>, which composes the three, returns
  the conversion of the text (and nothing for the empty text).
\<close>

theorem C2_shielding_noop_without_math:
  assumes "36 \<notin> set s"
  shows "extract_math s = (s, []) \<and>
         restore_math (markdownToHTML (fst (extract_math s))) (snd (extract_math s)) =
           markdownToHTML s \<and>
         renderContent s = (if s = [] then None else Some (markdownToHTML s))"
  using assms by (simp add: extract_math_no_dollar restore_math_def renderContent_def)

theorem C2_shielding_noop_witness:
  "36 \<notin> set (js ''# Title'') \<and>
   extract_math (js ''# Title'') = (js ''# Title'', []) \<and>
   restore_math (markdownToHTML (fst (extract_math (js ''# Title''))))
     (snd (extract_math (js ''# Title''))) = js ''<h1>Title</h1>''"
proof -
  have h: "36 \<notin> set (js ''# Title'')" by simp
  have m: "markdownToHTML (js ''# Title'') = js ''<h1>Title</h1>''"
    by (simp add: eval_engine eval_patterns eval_converter)
  note c = C2_shielding_noop_without_math[OF h]
  from c have c1: "extract_math (js ''# Title'') = (js ''# Title'', [])"
    by (rule conjunct1)
  from c have "restore_math (markdownToHTML (fst (extract_math (js ''# Title''))))
      (snd (extract_math (js ''# Title''))) = markdownToHTML (js ''# Title'')"
    by blast
  then have c2: "restore_math (markdownToHTML (fst (extract_math (js ''# Title''))))
      (snd (extract_math (js ''# Title''))) = js ''<h1>Title</h1>''"
    by (simp only: m)
  from h c1 c2 show ?thesis by blast
qed

lemma star_lazy_any_run:
  assumes fail: "\<And>q' a w. a \<noteq> 36 \<Longrightarrow> k \<lparr>pre = q', rest = a # w, caps = c\<rparr> = None"
    and t: "36 \<notin> set t"
    and ok: "k \<lparr>pre = rev t @ q, rest = v, caps = c\<rparr> = Some y"
  shows "star_lazy (matcher (Sym AnyCU)) k \<lparr>pre = q, rest = t @ v, caps = c\<rparr> = Some y"
  using t ok
proof (induction t arbitrary: q)
  case Nil
  then show "star_lazy (matcher (Sym AnyCU)) k \<lparr>pre = q, rest = [] @ v, caps = c\<rparr> = Some y"
    by (subst star_lazy.simps) simp
next
  case (Cons a t)
  from Cons.prems have a: "a \<noteq> 36" and t: "36 \<notin> set t" by auto
  have "star_lazy (matcher (Sym AnyCU)) k \<lparr>pre = a # q, rest = t @ v, caps = c\<rparr> = Some y"
    using t Cons.prems(2) by (intro Cons.IH) simp_all
  then show "star_lazy (matcher (Sym AnyCU)) k \<lparr>pre = q, rest = (a # t) @ v, caps = c\<rparr> = Some y"
    by (subst star_lazy.simps) (simp add: fail[OF a])
qed

lemma math_re_display:
  assumes "36 \<notin> set t"
  shows "match_here math_re p (36 # 36 # t @ [36, 36]) =
           Some \<lparr>pre = 36 # 36 # rev t @ 36 # 36 # p, rest = [],
                 caps = [1 \<mapsto> 36 # 36 # t @ [36, 36]]\<rparr>"
proof -
  let ?k = "matcher (str [36, 36])
      (\<lambda>y. Some (y\<lparr>caps := (caps y)(1 \<mapsto> rev (take (length (pre y) - length p) (pre y)))\<rparr>))"
  have e: "4 + n = Suc (Suc (Suc (Suc n)))" for n by simp
  have fail: "?k \<lparr>pre = q', rest = a # w, caps = Map.empty\<rparr> = None" if "a \<noteq> 36" for q' a w
    using that by (simp add: str_def)
  have ok: "?k \<lparr>pre = rev t @ 36 # 36 # p, rest = [36, 36], caps = Map.empty\<rparr> =
      Some \<lparr>pre = 36 # 36 # rev t @ 36 # 36 # p, rest = [], caps = [1 \<mapsto> 36 # 36 # t @ [36, 36]]\<rparr>"
    by (simp add: str_def e)
  have "star_lazy (matcher (Sym AnyCU)) ?k \<lparr>pre = 36 # 36 # p, rest = t @ [36, 36], caps = Map.empty\<rparr> =
      Some \<lparr>pre = 36 # 36 # rev t @ 36 # 36 # p, rest = [], caps = [1 \<mapsto> 36 # 36 # t @ [36, 36]]\<rparr>"
    using fail assms ok by (rule star_lazy_any_run)
  then show ?thesis
    by (simp add: match_here_def math_re_def str_def)
qed

lemma math_re_empty: "match_here math_re p [] = None"
  by (simp add: match_here_def math_re_def str_def)

lemma extract_math_display:
  assumes "36 \<notin> set t"
  shows "extract_math (js ''$$'' @ t @ js ''$$'') = (token 0, [js ''$$'' @ t @ js ''$$''])"
proof -
  have "replace_loop_st math_re math_cb [] [] (36 # 36 # t @ [36, 36]) =
      (token 0, [36 # 36 # t @ [36, 36]])"
    by (subst replace_loop_st.simps)
       (simp add: math_re_display[OF assms] math_cb_def mk_info_def replace_loop_st.simps math_re_empty)
  then show ?thesis by (simp add: extract_math_def)
qed

text \<open>
  C3. Extraction on \<open>Inline $x^2$ and block $$y=mx+b$$ end\<close> returns the spans
  \<open>$x^2$\<close> and \<open>$$y=mx+b$$\<close> in this order, and the shielded text has, where the
  spans were, the placeholder, the decimal index (0 for the first span, 1 for the
  second) and the placeholder again. The second span is the display span, not the empty
  inline span \<open>$$\<close> that would also match at that position; in general a text
  \<open>$$t$$\<close> with no dollar sign in \<open>t\<close> is captured whole, as one display span, and
  replaced by the token of index 0.
\<close>

theorem C3_extract_example:
  "extract_math (js ''Inline $x^2$ and block $$y=mx+b$$ end'') =
     (js ''Inline ___MATHJAX_PLACEHOLDER___0___MATHJAX_PLACEHOLDER___ and block ___MATHJAX_PLACEHOLDER___1___MATHJAX_PLACEHOLDER___ end'',
      [js ''$x^2$'', js ''$$y=mx+b$$'']) \<and>
   (\<forall>t. 36 \<notin> set t \<longrightarrow>
      extract_math (js ''$$'' @ t @ js ''$$'') =
        (js ''___MATHJAX_PLACEHOLDER___0___MATHJAX_PLACEHOLDER___'', [js ''$$'' @ t @ js ''$$'']))"
proof -
  have t0: "token 0 = js ''___MATHJAX_PLACEHOLDER___0___MATHJAX_PLACEHOLDER___''"
    by (simp add: eval_math digits_of.simps)
  have "extract_math (js ''Inline $x^2$ and block $$y=mx+b$$ end'') =
     (js ''Inline ___MATHJAX_PLACEHOLDER___0___MATHJAX_PLACEHOLDER___ and block ___MATHJAX_PLACEHOLDER___1___MATHJAX_PLACEHOLDER___ end'',
      [js ''$x^2$'', js ''$$y=mx+b$$''])"
    by (simp add: eval_engine eval_patterns eval_math)
  then show ?thesis using extract_math_display unfolding t0 by blast
qed

theorem C3_display_span_witness:
  "36 \<notin> set (js ''y=mx+b'') \<and>
   extract_math (js ''$$y=mx+b$$'') =
     (js ''___MATHJAX_PLACEHOLDER___0___MATHJAX_PLACEHOLDER___'', [js ''$$y=mx+b$$''])"
proof -
  have h: "36 \<notin> set (js ''y=mx+b'')" by simp
  from C3_extract_example have
    "36 \<notin> set (js ''y=mx+b'') \<longrightarrow>
     extract_math (js ''$$'' @ js ''y=mx+b'' @ js ''$$'') =
       (js ''___MATHJAX_PLACEHOLDER___0___MATHJAX_PLACEHOLDER___'',
        [js ''$$'' @ js ''y=mx+b'' @ js ''$$''])"
    by blast
  with h show ?thesis by simp
qed

text \<open>
  C4. The specification wants a token that occurs in the input of the converter to occur
  intact in its output. The converter loses a token that stands in the first or last
  cell of a table header, through the defect of C1: the header line
  \<open>|___MATHJAX_PLACEHOLDER___0___MATHJAX_PLACEHOLDER___|\<close> has one cell, which
  \<open>slice(1, -1)\<close> discards.
\<close>

theorem C4_token_lost_in_table_header:
  "occurs_in (token 0) (js ''|'' @ token 0 @ js ''|\<newline>|-|\<newline>'') \<and>
   markdownToHTML (js ''|'' @ token 0 @ js ''|\<newline>|-|\<newline>'') =
     js ''<table><thead><tr></tr></thead><tbody><tr></tr></tbody></table>'' \<and>
   \<not> occurs_in (token 0) (markdownToHTML (js ''|'' @ token 0 @ js ''|\<newline>|-|\<newline>''))"
proof -
  have a: "markdownToHTML (js ''|'' @ token 0 @ js ''|\<newline>|-|\<newline>'') =
     js ''<table><thead><tr></tr></thead><tbody><tr></tr></tbody></table>''"
    by (simp add: eval_engine eval_patterns eval_converter eval_math)
  have b: "occurs_in (token 0) (js ''|'' @ token 0 @ js ''|\<newline>|-|\<newline>'')"
    by (simp add: occurs_in_def eval_engine eval_math)
  have c: "\<not> occurs_in (token 0) (js ''<table><thead><tr></tr></thead><tbody><tr></tr></tbody></table>'')"
    by (simp add: occurs_in_def eval_engine eval_math)
  from a b c show ?thesis by simp
qed

lemma escape_code_charwise: "escape_code code = concat (map escape_cu code)"
proof -
  have lt: "replace_all (Sym (Lit 60)) (Template (js ''&lt;'')) s =
      concat (map (\<lambda>a. if a = 60 then js ''&lt;'' else [a]) s)" for s
    unfolding replace_all_def by (rule replace_loop_one_char) simp
  have gt: "replace_all (Sym (Lit 62)) (Template (js ''&gt;'')) s =
      concat (map (\<lambda>a. if a = 62 then js ''&gt;'' else [a]) s)" for s
    unfolding replace_all_def by (rule replace_loop_one_char) simp
  show ?thesis
    unfolding escape_code_def lt gt
    by (induction code) (simp_all add: escape_cu_def)
qed

text \<open>
  C5. The fenced block with the language \<open>js\<close> and the content \<open><tag>\<close> becomes a
  code element of class \<open>language-js\<close> with the content \<open>&lt;tag&gt;\<close>. In general
  the callback of the fence rule inserts the content with each \<open><\<close> and each \<open>>\<close>
  replaced by its entity, nothing else escaped, and trimmed.
\<close>

theorem C5_fenced_code:
  \<open>markdownToHTML (js ''```js\<newline><tag>\<newline>```'') =
     js ''<pre><code class="language-js">&lt;tag&gt;</code></pre>'' \<and>
   fence_cb mi =
     js ''<pre><code class="language-'' @ group_text mi 1 @ js ''">'' @
     trim (concat (map escape_cu (group_text mi 2))) @ js ''</code></pre>''\<close>
proof -
  have \<open>markdownToHTML (js ''```js\<newline><tag>\<newline>```'') =
     js ''<pre><code class="language-js">&lt;tag&gt;</code></pre>''\<close>
    by (simp add: eval_engine eval_patterns eval_converter)
  moreover have \<open>fence_cb mi =
     js ''<pre><code class="language-'' @ group_text mi 1 @ js ''">'' @
     trim (concat (map escape_cu (group_text mi 2))) @ js ''</code></pre>''\<close>
    by (simp only: fence_cb_def escape_code_charwise)
  ultimately show ?thesis by blast
qed

text \<open>
  C6. \<open>**bold** and *italic*\<close> becomes a bold element around \<open>bold\<close>, the text
  \<open> and \<close>, and an italic element around \<open>italic\<close>, inside a paragraph; no asterisk is
  left. The order of the two rules matters: with the italic rule first, the same input
  gives empty italic elements around \<open>bold\<close>.
\<close>

theorem C6_bold_before_italic:
  "markdownToHTML (js ''**bold** and *italic*'') =
     js ''<p><strong>bold</strong> and <em>italic</em></p>'' \<and>
   42 \<notin> set (markdownToHTML (js ''**bold** and *italic*'')) \<and>
   replace_all bold_re (Template (js ''<strong>$1</strong>''))
     (replace_all italic_re (Template (js ''<em>$1</em>'')) (js ''**bold** and *italic*'')) =
     js ''<em></em>bold<em></em> and <em>italic</em>''"
  by (simp add: eval_engine eval_patterns eval_converter)


text \<open>
  The lemmas for the amended C7 follow the pipeline. The text is made of text lines, then
  list lines of one kind, then text lines and blank lines, and has neither a fence nor a
  list tag. The rules before the list rules find nothing. The list rule of the kind turns
  every list line into a one-item list, with its white space gone, and the other list
  rule finds nothing. The merge rule of the kind removes every closing tag, line feed and
  opening tag between two items, and the other merge rule finds nothing. When there are
  list lines only and no item has a character of inline markup, the inline rules find
  nothing and the one list, which starts with a list tag, is not wrapped in a paragraph.
\<close>










































































































lemma replace_first_absent:
  "find_sub pat [] html = None \<Longrightarrow> replace_first pat block html = html"
  by (simp add: replace_first_def)

lemma extract_dd: "extract_math (js ''$$y$$'') = (token 0, [js ''$$y$$''])"
  by (simp add: eval_engine eval_patterns eval_math)

lemma convert_token0: "markdownToHTML (token 0) = js ''<p>'' @ token 0 @ js ''</p>''"
  by (simp add: eval_engine eval_patterns eval_converter eval_math)

text \<open>
  C8. The specification wants the span restored verbatim. The restoration hands the span
  to \<open>replace\<close> as a replacement string, in which \<open>$$\<close> stands for one dollar sign:
  the display span \<open>$$y$$\<close> comes back as the inline span \<open>$y$\<close>.
\<close>

theorem C8_restore_expands_dollar_patterns:
  "restore_math (token 0) [js ''$$y$$''] = js ''$y$'' \<and>
   renderContent (js ''$$y$$'') = Some (js ''<p>$y$</p>'')"
proof -
  have a: "restore_math (token 0) [js ''$$y$$''] = js ''$y$''"
    by (simp add: eval_engine eval_math)
  have b: "restore_math (js ''<p>'' @ token 0 @ js ''</p>'') [js ''$$y$$''] = js ''<p>$y$</p>''"
    by (simp add: eval_engine eval_math)
  have "renderContent (js ''$$y$$'') = Some (js ''<p>$y$</p>'')"
    unfolding renderContent_def extract_dd prod.case convert_token0 b by simp
  with a show ?thesis by simp
qed

text \<open>
  C9. Inline math is matched across line boundaries: in \<open>cost $5\<close>, newline,
  \<open>and $6 more\<close> the text from the first dollar sign to the second, newline included,
  is captured as one span.
\<close>

theorem C9_inline_math_spans_lines:
  "extract_math (js ''cost $5\<newline>and $6 more'') =
     (js ''cost '' @ token 0 @ js ''6 more'', [js ''$5\<newline>and $''])"
  by (simp add: eval_engine eval_patterns eval_math)

text \<open>
  C10, as stated, fails: \<open>####### x\<close> is not converted to a heading. The pattern of
  each level is anchored at the start of the line and asks for the space right after its
  run of \<open>#\<close>, so a run of seven is refused by all six and the line ends up in a
  paragraph.
\<close>

theorem C10_counterexample:
  "markdownToHTML (js ''####### x'') = js ''<p>####### x</p>''"
  by (simp add: eval_engine eval_patterns eval_converter)

lemma heading_re_long_run:
  assumes nl: "\<forall>c\<in>set t. \<not> is_line_terminator c"
    and marks: "marks \<in> {js ''# '', js ''## '', js ''### '', js ''#### '', js ''##### '', js ''###### ''}"
  shows "replace_all (heading_re marks) rep (35 # 35 # 35 # 35 # 35 # 35 # 35 # t) =
           35 # 35 # 35 # 35 # 35 # 35 # 35 # t"
proof -
  have "\<not> is_line_terminator 35"
    by (simp add: is_line_terminator_def)
  then have nl': "\<forall>c\<in>set (35 # 35 # 35 # 35 # 35 # 35 # 35 # t). \<not> is_line_terminator c"
    using nl by simp
  have "matcher (Seq (str marks) (Group 1 (Seq (Star (Sym Dot)) EolM))) Some
          \<lparr>pre = [], rest = 35 # 35 # 35 # 35 # 35 # 35 # 35 # t, caps = Map.empty\<rparr> = None"
    using marks by (auto simp add: str_def)
  from replace_loop_anchored_one_line[OF nl' this] show ?thesis
    by (simp add: replace_all_def heading_re_def)
qed

lemma replicate_7: "replicate 7 x = [x, x, x, x, x, x, x]"
  by (simp add: numeral_eq_Suc)

text \<open>
  C10, amended. For every run of seven or more \<open>#\<close> followed by a space and any text
  without a line terminator, the six heading rules leave the line as it is.
\<close>

theorem C10_long_hash_run_is_no_heading:
  assumes "7 \<le> n" and "\<forall>c\<in>set t. \<not> is_line_terminator c"
  shows "headings (replicate n 35 @ 32 # t) = replicate n 35 @ 32 # t"
proof -
  from assms(1) obtain m where n: "n = 7 + m" using le_Suc_ex by blast
  have "\<not> is_line_terminator 35" and "\<not> is_line_terminator 32"
    by (simp_all add: is_line_terminator_def)
  then have nl: "\<forall>c\<in>set (replicate m 35 @ 32 # t). \<not> is_line_terminator c"
    using assms(2) by auto
  have shape: "replicate n 35 @ 32 # t =
      35 # 35 # 35 # 35 # 35 # 35 # 35 # (replicate m 35 @ 32 # t)"
    by (simp add: n replicate_add replicate_7)
  note h = heading_re_long_run[OF nl]
  show ?thesis
    unfolding shape headings_def
    by (simp only: h[of "js ''# ''"] h[of "js ''## ''"] h[of "js ''### ''"] h[of "js ''#### ''"]
        h[of "js ''##### ''"] h[of "js ''###### ''"] insertI1 insertI2)
qed

theorem C10_long_hash_run_witness:
  "(7::nat) \<le> 7 \<and> \<not> is_line_terminator 120 \<and>
   headings (js ''####### x'') = js ''####### x''"
proof -
  have a: "(7::nat) \<le> 7" by simp
  have x: "\<not> is_line_terminator 120" by (simp add: is_line_terminator_def)
  then have b: "\<forall>c\<in>set (js ''x''). \<not> is_line_terminator c" by simp
  have "headings (replicate 7 35 @ 32 # js ''x'') = replicate 7 35 @ 32 # js ''x''"
    by (rule C10_long_hash_run_is_no_heading[OF a b])
  then have "headings (js ''####### x'') = js ''####### x''"
    by (simp add: replicate_7)
  with a x show ?thesis by blast
qed

end
